theory Spec2Isabelle
  imports Complex_Main "HOL-Library.Log_Nat"
begin

section \<open>JavaScript numbers\<close>

text \<open>
  Every number of \<^verbatim>\<open>src/App.jsx\<close> is an IEEE 754 binary64 value and every arithmetic
  operator rounds its exact result to the nearest such value, ties to the even mantissa.
  A number is modelled by the rational it denotes; \<open>fl\<close> is that rounding, with a
  53-bit mantissa. The exponent range is not modelled: \<open>fl q\<close> is the binary64
  result whenever \<open>q = 0\<close> or \<open>2\<^sup>-\<^sup>1\<^sup>0\<^sup>2\<^sup>2 \<le> \<bar>q\<bar> < 2\<^sup>1\<^sup>0\<^sup>2\<^sup>4\<close>, which
  covers page counts, page sizes in points and pixel sizes.
\<close>

definition rne :: "rat \<Rightarrow> int" where
  \<comment> \<open>round to the nearest integer, ties to even\<close>
  "rne x = (let f = \<lfloor>x\<rfloor>; r = x - of_int f in
     if r < 1 / 2 then f else if 1 / 2 < r then f + 1 else if even f then f else f + 1)"

definition binade :: "rat \<Rightarrow> int" where
  \<comment> \<open>for \<open>q > 0\<close>, the \<open>k\<close> with \<open>2\<^sup>k \<le> q < 2\<^sup>k\<^sup>+\<^sup>1\<close>\<close>
  "binade q = (if 1 \<le> q then int (floorlog 2 (nat \<lfloor>q\<rfloor>)) - 1
               else - int (floorlog 2 (nat (\<lceil>1 / q\<rceil> - 1))))"

definition fl :: "rat \<Rightarrow> rat" where
  "fl q = (if q = 0 then 0
           else let a = \<bar>q\<bar>; e = binade a - 52
                in sgn q * (of_int (rne (a / 2 powi e)) * 2 powi e))"

definition js_mul :: "rat \<Rightarrow> rat \<Rightarrow> rat" where
  \<comment> \<open>the operator \<^verbatim>\<open>*\<close>\<close>
  "js_mul x y = fl (x * y)"

definition js_div :: "rat \<Rightarrow> rat \<Rightarrow> rat" where
  \<comment> \<open>the operator \<^verbatim>\<open>/\<close>; both divisions of the source have a positive divisor\<close>
  "js_div x y = fl (x / y)"

definition Math_round :: "rat \<Rightarrow> int" where
  \<comment> \<open>\<^verbatim>\<open>Math.round\<close>: the nearest integer, a tie going up\<close>
  "Math_round x = \<lfloor>x + 1 / 2\<rfloor>"

section \<open>Strings\<close>

text \<open>
  Text is modelled as its UTF-8 bytes. The three messages of the source are Chinese
  sentences; they are spelled out byte by byte.
\<close>

fun digits :: "nat \<Rightarrow> string" where
  \<comment> \<open>a non-negative integer inside a template literal: its decimal digits\<close>
  "digits n = (if n < 10 then [char_of (48 + n)]
               else digits (n div 10) @ [char_of (48 + n mod 10)])"

fun replaceFirst :: "string \<Rightarrow> string \<Rightarrow> string \<Rightarrow> string" where
  \<comment> \<open>\<^verbatim>\<open>s.replace(pat, rep)\<close> with a string pattern: only the first occurrence is replaced\<close>
  "replaceFirst pat rep [] = (if pat = [] then rep else [])"
| "replaceFirst pat rep (c # cs) =
     (if take (length pat) (c # cs) = pat then rep @ drop (length pat) (c # cs)
      else c # replaceFirst pat rep cs)"

fun splitOn :: "char \<Rightarrow> string \<Rightarrow> string list" where
  \<comment> \<open>\<^verbatim>\<open>s.split(c)\<close> with a one-character separator\<close>
  "splitOn sep [] = [[]]"
| "splitOn sep (c # cs) =
     (if c = sep then [] # splitOn sep cs
      else (case splitOn sep cs of [] \<Rightarrow> [[c]] | w # ws \<Rightarrow> (c # w) # ws))"

definition at_index :: "'a list \<Rightarrow> nat \<Rightarrow> 'a option" where
  \<comment> \<open>\<^verbatim>\<open>xs[i]\<close>, \<open>None\<close> standing for \<^verbatim>\<open>undefined\<close>\<close>
  "at_index xs i = (if i < length xs then Some (xs ! i) else None)"

definition conversionFailedMsg :: string where
  "conversionFailedMsg = map char_of
     [0xE8, 0xBD, 0xAC, 0xE6, 0x8D, 0xA2, 0xE8, 0xBF, 0x87, 0xE7, 0xA8, 0x8B, 0xE4, 0xB8,
      0xAD, 0xE5, 0x8F, 0x91, 0xE7, 0x94, 0x9F, 0xE9, 0x94, 0x99, 0xE8, 0xAF, 0xAF, 0x3A,
      0x20 :: nat]"

definition parseFailedMsg :: string where
  "parseFailedMsg = map char_of
     [0xE6, 0x97, 0xA0, 0xE6, 0xB3, 0x95, 0xE8, 0xA7, 0xA3, 0xE6, 0x9E, 0x90, 0x20, 0x50,
      0x44, 0x46, 0x20, 0xE6, 0x96, 0x87, 0xE4, 0xBB, 0xB6, 0xEF, 0xBC, 0x8C, 0xE6, 0x96,
      0x87, 0xE4, 0xBB, 0xB6, 0xE5, 0x8F, 0xAF, 0xE8, 0x83, 0xBD, 0xE5, 0xB7, 0xB2, 0xE6,
      0x8D, 0x9F, 0xE5, 0x9D, 0x8F, 0xE3, 0x80, 0x82 :: nat]"

definition invalidFileMsg :: string where
  "invalidFileMsg = map char_of
     [0xE8, 0xAF, 0xB7, 0xE4, 0xB8, 0x8A, 0xE4, 0xBC, 0xA0, 0xE6, 0x9C, 0x89, 0xE6, 0x95,
      0x88, 0xE7, 0x9A, 0x84, 0x20, 0x50, 0x44, 0x46, 0x20, 0xE6, 0x96, 0x87, 0xE4, 0xBB,
      0xB6, 0xE3, 0x80, 0x82 :: nat]"

section \<open>Data\<close>

datatype status = Idle | Processing | Done | Error

record conversion_settings =
  format :: string
  quality :: rat
  scale :: rat
  maxPageWidth :: int

record viewport =
  vp_width :: rat
  vp_height :: rat
  vp_scale :: rat

text \<open>
  A page of the loaded document. \<open>pwidth\<close> and \<open>pheight\<close> are its size at scale 1.
  \<open>render p vp w h\<close> is the outcome of \<^verbatim>\<open>await page.render(...).promise\<close> into a new
  canvas of \<open>w \<times> h\<close> pixels: the message of the rejection, or the painted canvas, given
  by its method \<^verbatim>\<open>toDataURL(mimeType, quality)\<close>.
\<close>

record pdf_page =
  pwidth :: rat
  pheight :: rat
  render :: "viewport \<Rightarrow> int \<Rightarrow> int \<Rightarrow> string + (string \<Rightarrow> rat \<Rightarrow> string)"

text \<open>
  The loaded document: \<^verbatim>\<open>numPages\<close> and the outcome of \<^verbatim>\<open>await pdfDoc.getPage(i)\<close>,
  the message of the rejection or the page.
\<close>

record pdf_doc =
  numPages :: nat
  getPage :: "nat \<Rightarrow> string + pdf_page"

record image =
  page :: nat
  dataUrl :: string
  width :: int
  height :: int

text \<open>
  The state of the component \<^verbatim>\<open>App\<close>. \<open>fileName\<close> is \<^verbatim>\<open>file.name\<close>, or \<open>None\<close> when
  \<^verbatim>\<open>file\<close> is \<^verbatim>\<open>null\<close>.
  \<^verbatim>\<open>isReady\<close> and \<^verbatim>\<open>isDragging\<close> only steer the display and are left out.
\<close>

record app =
  fileName :: "string option"
  pdfDoc :: "pdf_doc option"
  status :: status
  progress :: int
  convertedImages :: "image list"
  errorMsg :: string
  settings :: conversion_settings

definition initialSettings :: conversion_settings where
  "initialSettings = \<lparr>format = ''png'', quality = 9 / 10, scale = 2, maxPageWidth = 0\<rparr>"

definition initialApp :: app where
  "initialApp = \<lparr>fileName = None, pdfDoc = None, status = Idle, progress = 0,
     convertedImages = [], errorMsg = [], settings = initialSettings\<rparr>"

section \<open>The platform\<close>

definition getViewport :: "pdf_page \<Rightarrow> rat \<Rightarrow> viewport" where
  \<comment> \<open>Modelled from the spec: \<^verbatim>\<open>page.getViewport({scale})\<close> belongs to the Document Source
      (pdf.js, fetched at run time, not under src/). Section 4.1 gives its result: the
      unscaled width and height, each multiplied by the scale.\<close>
  "getViewport p sc = \<lparr>vp_width = js_mul (pwidth p) sc, vp_height = js_mul (pheight p) sc,
     vp_scale = sc\<rparr>"

definition canvasDim :: "int \<Rightarrow> rat \<Rightarrow> int" where
  \<comment> \<open>\<^verbatim>\<open>canvas.width = x; canvas.width\<close>. The attribute is a Web IDL \<^verbatim>\<open>unsigned long\<close>:
      the assigned number is truncated towards zero and taken modulo \<open>2\<^sup>3\<^sup>2\<close>, and a
      value above \<open>2\<^sup>3\<^sup>1 - 1\<close> is replaced by the attribute's default.\<close>
  "canvasDim dflt x =
     (let n = (if 0 \<le> x then \<lfloor>x\<rfloor> else - \<lfloor>- x\<rfloor>) mod 2 ^ 32
      in if n \<le> 2147483647 then n else dflt)"

section \<open>startConversion\<close>

definition planViewport :: "conversion_settings \<Rightarrow> pdf_page \<Rightarrow> viewport" where
  "planViewport st p =
     (let viewport = getViewport p (scale st)
      in if 0 < maxPageWidth st \<and> of_int (maxPageWidth st) < vp_width viewport
         then (let scaleRatio = js_div (of_int (maxPageWidth st)) (vp_width viewport)
               in getViewport p (js_mul (scale st) scaleRatio))
         else viewport)"

definition convertPage :: "pdf_doc \<Rightarrow> conversion_settings \<Rightarrow> nat \<Rightarrow> string + image" where
  \<comment> \<open>the body of the loop up to \<^verbatim>\<open>images.push\<close>; \<open>Inl\<close> is the message of what was thrown\<close>
  "convertPage doc st i =
     (case getPage doc i of
        Inl err \<Rightarrow> Inl err
      | Inr p \<Rightarrow>
         (let viewport = planViewport st p;
              canvas_height = canvasDim 150 (vp_height viewport);
              canvas_width = canvasDim 300 (vp_width viewport)
          in case render p viewport canvas_width canvas_height of
               Inl err \<Rightarrow> Inl err
             | Inr toDataURL \<Rightarrow>
                (let mimeType = (if format st = ''png'' then ''image/png'' else ''image/jpeg'')
                 in Inr \<lparr>page = i, dataUrl = toDataURL mimeType (quality st),
                      width = canvas_width, height = canvas_height\<rparr>)))"

definition progressPercent :: "nat \<Rightarrow> nat \<Rightarrow> int" where
  \<comment> \<open>\<^verbatim>\<open>Math.round((i / totalPages) * 100)\<close>\<close>
  "progressPercent i totalPages = Math_round (js_mul (js_div (of_nat i) (of_nat totalPages)) 100)"

text \<open>
  A call of \<^verbatim>\<open>startConversion\<close> in progress: the state of the component, the local
  array \<^verbatim>\<open>images\<close>, and the states the component has been displayed in, one for each
  \<^verbatim>\<open>await new Promise(resolve => requestAnimationFrame(resolve))\<close>.
  No other handler is taken to run while the call is suspended.
\<close>

record run =
  app_state :: app
  images :: "image list"
  shown :: "app list"

function pageLoop :: "pdf_doc \<Rightarrow> conversion_settings \<Rightarrow> nat \<Rightarrow> run \<Rightarrow> run \<times> string option" where
  "pageLoop doc st i r =
     (if i \<le> numPages doc then
        (case convertPage doc st i of
           Inl err \<Rightarrow> (r, Some err)
         | Inr img \<Rightarrow>
            (let s = (app_state r)\<lparr>progress := progressPercent i (numPages doc)\<rparr>
             in pageLoop doc st (i + 1)
                  \<lparr>app_state = s, images = images r @ [img], shown = shown r @ [s]\<rparr>))
      else (r, None))"
  by pat_completeness auto
termination
  by (relation "measure (\<lambda>(doc, st, i, r). numPages doc + 1 - i)") auto

definition startConversion :: "app \<Rightarrow> run" where
  "startConversion s =
     (case pdfDoc s of
        None \<Rightarrow> \<lparr>app_state = s, images = [], shown = []\<rparr>
      | Some doc \<Rightarrow>
         (let s1 = s\<lparr>status := Processing, progress := 0, convertedImages := []\<rparr>
          in case pageLoop doc (settings s) 1 \<lparr>app_state = s1, images = [], shown = []\<rparr> of
               (r, None) \<Rightarrow>
                 r\<lparr>app_state := (app_state r)\<lparr>convertedImages := images r, status := Done\<rparr>\<rparr>
             | (r, Some err) \<Rightarrow>
                 r\<lparr>app_state := (app_state r)\<lparr>errorMsg := conversionFailedMsg @ err,
                                                 status := Error\<rparr>\<rparr>))"

section \<open>downloadAll\<close>

datatype zip_content = Folder | Base64 "string option"

fun zip_file :: "string \<Rightarrow> zip_content \<Rightarrow> (string \<times> zip_content) list \<Rightarrow> (string \<times> zip_content) list" where
  \<comment> \<open>JSZip keeps its entries in an object keyed by name: a second entry of the same
      name takes the place of the first\<close>
  "zip_file name c [] = [(name, c)]"
| "zip_file name c (e # es) = (if fst e = name then (name, c) # es else e # zip_file name c es)"

datatype delivery =
    Nothing
  | SaveAs string string
  | SaveZip "(string \<times> zip_content) list" string
  | Thrown

definition downloadAll :: "app \<Rightarrow> delivery" where
  \<comment> \<open>\<open>SaveAs data name\<close> and \<open>SaveZip entries name\<close> are the two calls of
      \<^verbatim>\<open>window.saveAs\<close>; \<open>Thrown\<close> is the TypeError of \<^verbatim>\<open>file.name\<close> on \<^verbatim>\<open>null\<close>\<close>
  "downloadAll s =
     (if length (convertedImages s) = 0 then Nothing
      else if length (convertedImages s) = 1
      then SaveAs (dataUrl (convertedImages s ! 0)) (''page-1.'' @ format (settings s))
      else
        (let zip = zip_file ''images/'' Folder [];
             zip' = foldl (\<lambda>z img.
                      zip_file (''images/'' @ ''page-'' @ digits (page img) @ ''.'' @ format (settings s))
                        (Base64 (at_index (splitOn CHR '','' (dataUrl img)) 1)) z)
                      zip (convertedImages s)
         in case fileName s of
              None \<Rightarrow> Thrown
            | Some name \<Rightarrow> SaveZip zip' (replaceFirst ''.pdf'' [] name @ ''-images.zip'')))"

section \<open>The other handlers\<close>

definition chooseFile :: "app \<Rightarrow> string \<Rightarrow> app" where
  \<comment> \<open>the five updates \<^verbatim>\<open>handleFileChange\<close> makes before it parses the file\<close>
  "chooseFile s name = s\<lparr>fileName := Some name, convertedImages := [], status := Idle,
     errorMsg := [], progress := 0\<rparr>"

text \<open>
  \<^verbatim>\<open>handleFileChange\<close> receives nothing, or a file with its name, its type and what
  parsing it gives: a message or the document.
\<close>

definition handleFileChange :: "app \<Rightarrow> (string \<times> string \<times> (string + pdf_doc)) option \<Rightarrow> app" where
  "handleFileChange s selectedFile =
     (case selectedFile of
        None \<Rightarrow> s\<lparr>errorMsg := invalidFileMsg\<rparr>
      | Some (name, type, parsed) \<Rightarrow>
          if type = ''application/pdf'' then
            (case parsed of
               Inr pdf \<Rightarrow> (chooseFile s name)\<lparr>pdfDoc := Some pdf\<rparr>
             | Inl err \<Rightarrow> (chooseFile s name)\<lparr>errorMsg := parseFailedMsg\<rparr>)
          else s\<lparr>errorMsg := invalidFileMsg\<rparr>)"

definition removeFile :: "app \<Rightarrow> app" where
  "removeFile s = s\<lparr>fileName := None\<rparr>"

definition reset :: "app \<Rightarrow> app" where
  "reset s = s\<lparr>status := Idle, convertedImages := []\<rparr>"

text \<open>
  The states the component can be in. Each handler is bound to a control that is
  displayed in some states only: the drop zone and the file input while no file is
  chosen, the buttons that remove the file and start the conversion while a file is chosen
  and the status is \<open>Idle\<close>, the buttons that reset and download while the status is
  \<open>Done\<close>, the settings always. Parsing a file is asynchronous, so the state in which the
  file is chosen and not yet parsed is displayed too, and the parsed document or the
  parse failure may arrive after other handlers have run. Every state displayed during a
  conversion is included.
\<close>

inductive reachable :: "app \<Rightarrow> bool" where
  r_init: "reachable initialApp"
| r_file: "reachable s \<Longrightarrow> fileName s = None \<Longrightarrow> reachable (handleFileChange s f)"
| r_parsing: "reachable s \<Longrightarrow> fileName s = None \<Longrightarrow> reachable (chooseFile s name)"
| r_parsed: "reachable s \<Longrightarrow> reachable (s\<lparr>pdfDoc := Some pdf\<rparr>)"
| r_parse_failed: "reachable s \<Longrightarrow> reachable (s\<lparr>errorMsg := parseFailedMsg\<rparr>)"
| r_remove: "reachable s \<Longrightarrow> fileName s \<noteq> None \<Longrightarrow> status s = Idle \<Longrightarrow> reachable (removeFile s)"
| r_reset: "reachable s \<Longrightarrow> fileName s \<noteq> None \<Longrightarrow> status s = Done \<Longrightarrow> reachable (reset s)"
| r_settings: "reachable s \<Longrightarrow> reachable (s\<lparr>settings := st\<rparr>)"
| r_shown: "reachable s \<Longrightarrow> fileName s \<noteq> None \<Longrightarrow> status s = Idle \<Longrightarrow>
            s' \<in> set (shown (startConversion s)) \<Longrightarrow> reachable s'"
| r_convert: "reachable s \<Longrightarrow> fileName s \<noteq> None \<Longrightarrow> status s = Idle \<Longrightarrow>
              reachable (app_state (startConversion s))"

section \<open>Sample documents\<close>

definition samplePage :: "rat \<Rightarrow> rat \<Rightarrow> pdf_page" where
  \<comment> \<open>a page of the given size that renders\<close>
  "samplePage w h = \<lparr>pwidth = w, pheight = h,
     render = (\<lambda>vp cw ch. Inr (\<lambda>mimeType q. ''data:'' @ mimeType @ '';base64,iVBORw0KGgo=''))\<rparr>"

definition brokenPage :: pdf_page where
  \<comment> \<open>a page whose rendering is rejected\<close>
  "brokenPage = \<lparr>pwidth = 612, pheight = 792,
     render = (\<lambda>vp cw ch. Inl ''Unknown colour space'')\<rparr>"

definition letterDoc :: "nat \<Rightarrow> pdf_doc" where
  \<comment> \<open>\<open>n\<close> pages of US Letter size\<close>
  "letterDoc n = \<lparr>numPages = n, getPage = (\<lambda>i. Inr (samplePage 612 792))\<rparr>"

definition a4Doc :: "nat \<Rightarrow> pdf_doc" where
  \<comment> \<open>\<open>n\<close> pages of A4 size, in whole points\<close>
  "a4Doc n = \<lparr>numPages = n, getPage = (\<lambda>i. Inr (samplePage 595 842))\<rparr>"

definition brokenDoc :: "nat \<Rightarrow> nat \<Rightarrow> pdf_doc" where
  \<comment> \<open>\<open>n\<close> pages of US Letter size, page \<open>k\<close> failing to render\<close>
  "brokenDoc n k = \<lparr>numPages = n,
     getPage = (\<lambda>i. Inr (if i = k then brokenPage else samplePage 612 792))\<rparr>"

definition loaded :: "string \<Rightarrow> pdf_doc \<Rightarrow> app" where
  \<comment> \<open>the initial state after the named file was chosen and parsed\<close>
  "loaded name doc = handleFileChange initialApp (Some (name, ''application/pdf'', Inr doc))"

section \<open>Rounding to binary64: range, error and monotonicity\<close>

lemma binade_bounds:
  assumes "0 < q"
  shows "2 powi binade q \<le> q" and "q < 2 powi (binade q + 1)"
proof -
  have "2 powi binade q \<le> q \<and> q < 2 powi (binade q + 1)"
  proof (cases "1 \<le> q")
    case True
    define n where "n = nat \<lfloor>q\<rfloor>"
    have n1: "0 < n" using True by (simp add: n_def)
    have nq: "rat_of_nat n \<le> q" "q < rat_of_nat n + 1"
      using True by (simp_all add: n_def) linarith
    from floorlog_bounds[OF n1, of 2]
    have b: "2 ^ (floorlog 2 n - 1) \<le> n" "n < 2 ^ floorlog 2 n" by simp_all
    have fpos: "0 < floorlog 2 n" using n1 by (simp add: floorlog_def)
    have k: "binade q = int (floorlog 2 n - 1)"
      using True fpos by (simp add: binade_def n_def)
    have k1: "binade q + 1 = int (floorlog 2 n)"
      using fpos by (simp add: k)
    have "rat_of_nat (2 ^ (floorlog 2 n - 1)) \<le> rat_of_nat n"
      using b(1) by (rule of_nat_mono)
    then have "(2::rat) ^ (floorlog 2 n - 1) \<le> rat_of_nat n"
      by (simp only: of_nat_power of_nat_numeral)
    then have lo: "(2::rat) ^ (floorlog 2 n - 1) \<le> q" using nq(1) by (rule order_trans)
    have "n + 1 \<le> 2 ^ floorlog 2 n" using b(2) by simp
    then have "rat_of_nat (n + 1) \<le> rat_of_nat (2 ^ floorlog 2 n)"
      by (rule of_nat_mono)
    then have "rat_of_nat n + 1 \<le> (2::rat) ^ floorlog 2 n"
      by (simp only: of_nat_power of_nat_numeral of_nat_add of_nat_1)
    with nq(2) have hi: "q < (2::rat) ^ floorlog 2 n" by (rule less_le_trans)
    show ?thesis unfolding k1 unfolding k using lo hi by simp
  next
    case False
    then have q1: "q < 1" by simp
    define p where "p = 1 / q"
    have p1: "1 < p" using assms q1 by (simp add: p_def)
    define m where "m = nat (\<lceil>p\<rceil> - 1)"
    have c2: "2 \<le> \<lceil>p\<rceil>" using p1 by (simp add: le_ceiling_iff)
    have m1: "0 < m" using c2 by (simp add: m_def)
    have mi: "int m = \<lceil>p\<rceil> - 1" using c2 by (simp add: m_def)
    have "rat_of_int (int m) < p" unfolding mi using ceiling_correct[of p] by simp
    then have mp: "rat_of_nat m < p" by simp
    have "p \<le> rat_of_int (int m + 1)" unfolding mi using ceiling_correct[of p] by simp
    then have pm: "p \<le> rat_of_nat m + 1" by simp
    from floorlog_bounds[OF m1, of 2]
    have b: "2 ^ (floorlog 2 m - 1) \<le> m" "m < 2 ^ floorlog 2 m" by simp_all
    have fpos: "0 < floorlog 2 m" using m1 by (simp add: floorlog_def)
    have k: "binade q = - int (floorlog 2 m)"
      using False by (simp add: binade_def m_def p_def)
    have "rat_of_nat (2 ^ (floorlog 2 m - 1)) \<le> rat_of_nat m"
      using b(1) by (rule of_nat_mono)
    then have "(2::rat) ^ (floorlog 2 m - 1) \<le> rat_of_nat m"
      by (simp only: of_nat_power of_nat_numeral)
    then have lo: "(2::rat) ^ (floorlog 2 m - 1) < p" using mp by (rule le_less_trans)
    have "m + 1 \<le> 2 ^ floorlog 2 m" using b(2) by simp
    then have "rat_of_nat (m + 1) \<le> rat_of_nat (2 ^ floorlog 2 m)"
      by (rule of_nat_mono)
    then have "rat_of_nat m + 1 \<le> (2::rat) ^ floorlog 2 m"
      by (simp only: of_nat_power of_nat_numeral of_nat_add of_nat_1)
    with pm have hi: "p \<le> (2::rat) ^ floorlog 2 m" by (rule order_trans)
    have qp: "q = 1 / p" using assms by (simp add: p_def)
    have A: "2 powi binade q \<le> q"
    proof -
      have "1 / (2::rat) ^ floorlog 2 m \<le> 1 / p"
        using hi p1 by (simp add: frac_le)
      then show ?thesis unfolding k qp[symmetric]
        by (simp add: power_int_minus field_simps)
    qed
    have B: "q < 2 powi (binade q + 1)"
    proof -
      have "1 / p < 1 / (2::rat) ^ (floorlog 2 m - 1)"
        using lo by (simp add: frac_less2)
      moreover have "binade q + 1 = - int (floorlog 2 m - 1)"
        using fpos by (simp add: k)
      ultimately show ?thesis unfolding qp[symmetric]
        by (simp add: power_int_minus field_simps)
    qed
    show ?thesis using A B by simp
  qed
  then show "2 powi binade q \<le> q" and "q < 2 powi (binade q + 1)" by simp_all
qed

lemma rne_cases: "rne x = \<lfloor>x\<rfloor> \<or> rne x = \<lfloor>x\<rfloor> + 1"
  by (simp add: rne_def Let_def)

lemma rne_err: "\<bar>rat_of_int (rne x) - x\<bar> \<le> 1 / 2"
proof -
  have "rat_of_int \<lfloor>x\<rfloor> \<le> x" "x < rat_of_int \<lfloor>x\<rfloor> + 1" by linarith+
  then show ?thesis
    by (auto simp: rne_def Let_def abs_le_iff)
qed

lemma rne_of_int [simp]: "rne (rat_of_int n) = n"
  by (simp add: rne_def)

lemma rne_mono:
  assumes "x \<le> y"
  shows "rne x \<le> rne y"
proof (cases "\<lfloor>x\<rfloor> = \<lfloor>y\<rfloor>")
  case True
  have "x - rat_of_int \<lfloor>y\<rfloor> \<le> y - rat_of_int \<lfloor>y\<rfloor>" using assms by simp
  then show ?thesis
    by (auto simp: rne_def Let_def True)
next
  case False
  have "\<lfloor>x\<rfloor> \<le> \<lfloor>y\<rfloor>" using assms by (rule floor_mono)
  with False have "\<lfloor>x\<rfloor> + 1 \<le> \<lfloor>y\<rfloor>" by simp
  moreover have "rne x \<le> \<lfloor>x\<rfloor> + 1" using rne_cases[of x] by auto
  moreover have "\<lfloor>y\<rfloor> \<le> rne y" using rne_cases[of y] by auto
  ultimately show ?thesis by linarith
qed

lemma rne_ge: "rat_of_int a \<le> x \<Longrightarrow> a \<le> rne x"
  using rne_mono[of "rat_of_int a" x] by simp

lemma rne_le: "x \<le> rat_of_int b \<Longrightarrow> rne x \<le> b"
  using rne_mono[of x "rat_of_int b"] by simp

lemma fl_pos_eq:
  "0 < q \<Longrightarrow> fl q = rat_of_int (rne (q / 2 powi (binade q - 52))) * 2 powi (binade q - 52)"
  by (simp add: fl_def Let_def)

lemma mantissa_bounds:
  assumes "0 < q"
  shows "2 ^ 52 \<le> q / 2 powi (binade q - 52)" and "q / 2 powi (binade q - 52) < 2 ^ 53"
proof -
  have p: "(0::rat) < 2 powi (binade q - 52)" by simp
  have e1: "(2::rat) ^ 52 * 2 powi (binade q - 52) = 2 powi binade q"
    by (simp add: power_int_diff)
  have e2: "(2::rat) ^ 53 * 2 powi (binade q - 52) = 2 powi (binade q + 1)"
    by (simp add: power_int_diff power_int_add)
  show "2 ^ 52 \<le> q / 2 powi (binade q - 52)"
    using binade_bounds(1)[OF assms] p by (simp only: le_divide_eq e1) simp
  show "q / 2 powi (binade q - 52) < 2 ^ 53"
    using binade_bounds(2)[OF assms] p by (simp only: divide_less_eq e2) simp
qed

lemma fl_error:
  assumes "0 < q"
  shows "\<bar>fl q - q\<bar> \<le> q / 2 ^ 53"
proof -
  define e where "e = binade q - 52"
  define x where "x = q / 2 powi e"
  have p: "(0::rat) < 2 powi e" by simp
  have q: "q = x * 2 powi e" by (simp add: x_def)
  have x52: "2 ^ 52 \<le> x" using mantissa_bounds(1)[OF assms] by (simp add: x_def e_def)
  have "fl q - q = (rat_of_int (rne x) - x) * 2 powi e"
    using assms by (simp add: fl_pos_eq e_def[symmetric] x_def[symmetric] q[symmetric] algebra_simps)
  then have "\<bar>fl q - q\<bar> = \<bar>rat_of_int (rne x) - x\<bar> * 2 powi e"
    by (simp add: abs_mult)
  also have "\<dots> \<le> (1 / 2) * 2 powi e"
    using rne_err[of x] p by (intro mult_right_mono) simp_all
  also have "\<dots> \<le> (x / 2 ^ 53) * 2 powi e"
    using x52 p by (intro mult_right_mono) simp_all
  also have "\<dots> = q / 2 ^ 53" by (simp add: q)
  finally show ?thesis .
qed

lemma fl_pos: "0 < q \<Longrightarrow> 0 < fl q"
proof -
  assume q: "0 < q"
  have "q / 2 ^ 53 < q" using q by simp
  moreover have "q - fl q \<le> q / 2 ^ 53" using fl_error[OF q] by (simp only: abs_le_iff) linarith
  ultimately show ?thesis by linarith
qed

lemma fl_upper:
  assumes "0 < q"
  shows "fl q \<le> q * (1 + 1 / 2 ^ 53)"
proof -
  have "fl q - q \<le> q / 2 ^ 53" using fl_error[OF assms] by linarith
  moreover have "q * (1 + 1 / 2 ^ 53) = q + q / 2 ^ 53" by (simp add: algebra_simps)
  ultimately show ?thesis by linarith
qed

lemma fl_lower:
  assumes "0 < q"
  shows "q * (1 - 1 / 2 ^ 53) \<le> fl q"
proof -
  have "q - fl q \<le> q / 2 ^ 53" using fl_error[OF assms] by linarith
  moreover have "q * (1 - 1 / 2 ^ 53) = q - q / 2 ^ 53" by (simp add: algebra_simps)
  ultimately show ?thesis by linarith
qed

lemma binade_mono:
  assumes "0 < p" "p \<le> q"
  shows "binade p \<le> binade q"
proof (rule ccontr)
  assume "\<not> binade p \<le> binade q"
  then have "binade q + 1 \<le> binade p" by simp
  then have "(2::rat) powi (binade q + 1) \<le> 2 powi binade p"
    by (intro power_int_increasing) simp_all
  moreover have "0 < q" using assms by simp
  ultimately show False
    using binade_bounds(1)[OF assms(1)] binade_bounds(2)[of q] assms(2) by simp
qed

lemma fl_range:
  assumes "0 < q"
  shows "2 powi binade q \<le> fl q" and "fl q \<le> 2 powi (binade q + 1)"
proof -
  let ?e = "binade q - 52"
  let ?x = "q / 2 powi ?e"
  have p: "(0::rat) < 2 powi ?e" by simp
  have "rat_of_int (2 ^ 52) \<le> ?x" using mantissa_bounds(1)[OF assms] by simp
  then have "2 ^ 52 \<le> rne ?x" by (rule rne_ge)
  then have "rat_of_int (2 ^ 52) \<le> rat_of_int (rne ?x)" by (simp only: of_int_le_iff)
  then have "2 ^ 52 * 2 powi ?e \<le> rat_of_int (rne ?x) * 2 powi ?e"
    using p by (intro mult_right_mono) simp_all
  then show "2 powi binade q \<le> fl q"
    using assms by (simp add: fl_pos_eq power_int_diff)
  have "?x \<le> rat_of_int (2 ^ 53)" using mantissa_bounds(2)[OF assms] by simp
  then have "rne ?x \<le> 2 ^ 53" by (rule rne_le)
  then have "rat_of_int (rne ?x) \<le> rat_of_int (2 ^ 53)" by (simp only: of_int_le_iff)
  then have "rat_of_int (rne ?x) * 2 powi ?e \<le> 2 ^ 53 * 2 powi ?e"
    using p by (intro mult_right_mono) simp_all
  then show "fl q \<le> 2 powi (binade q + 1)"
    using assms by (simp add: fl_pos_eq power_int_diff power_int_add)
qed

lemma fl_mono:
  assumes "0 < p" "p \<le> q"
  shows "fl p \<le> fl q"
proof (cases "binade p = binade q")
  case True
  let ?e = "binade q - 52"
  have q: "0 < q" using assms by simp
  have pe: "(0::rat) < 2 powi ?e" by simp
  have "p / 2 powi ?e \<le> q / 2 powi ?e" using assms(2) pe by (simp add: divide_right_mono)
  then have "rne (p / 2 powi ?e) \<le> rne (q / 2 powi ?e)" by (rule rne_mono)
  then have "rat_of_int (rne (p / 2 powi ?e)) \<le> rat_of_int (rne (q / 2 powi ?e))"
    by (simp only: of_int_le_iff)
  then have "rat_of_int (rne (p / 2 powi ?e)) * 2 powi ?e
      \<le> rat_of_int (rne (q / 2 powi ?e)) * 2 powi ?e"
    using pe by (intro mult_right_mono) simp_all
  then show ?thesis using assms(1) q by (simp add: fl_pos_eq True)
next
  case False
  have q: "0 < q" using assms by simp
  from False binade_mono[OF assms] have "binade p + 1 \<le> binade q" by simp
  then have "(2::rat) powi (binade p + 1) \<le> 2 powi binade q"
    by (intro power_int_increasing) simp_all
  with fl_range(2)[OF assms(1)] fl_range(1)[OF q] show ?thesis by linarith
qed

lemma fl_one: "fl 1 = 1"
  by code_simp

lemma fl_hundred: "fl 100 = 100"
  by code_simp

lemma Math_round_hundred: "Math_round 100 = 100"
  by code_simp

section \<open>The loop over the pages\<close>

declare pageLoop.simps [simp del]

lemma pageLoop_closed:
  assumes "i \<le> k" and "k \<le> numPages doc + 1"
    and ok: "\<forall>j. i \<le> j \<and> j < k \<longrightarrow> \<not> isl (convertPage doc st j)"
    and stop: "k \<le> numPages doc \<longrightarrow> isl (convertPage doc st k)"
  shows "pageLoop doc st i r =
     (\<lparr>app_state = (if i < k then (app_state r)\<lparr>progress := progressPercent (k - 1) (numPages doc)\<rparr>
                     else app_state r),
       images = images r @ map (\<lambda>j. projr (convertPage doc st j)) [i..<k],
       shown = shown r @ map (\<lambda>j. (app_state r)\<lparr>progress := progressPercent j (numPages doc)\<rparr>) [i..<k]\<rparr>,
      if k \<le> numPages doc then Some (projl (convertPage doc st k)) else None)"
  using assms
proof (induction "k - i" arbitrary: i r)
  case 0
  then have ik: "i = k" by simp
  show ?case
  proof (cases "k \<le> numPages doc")
    case True
    with "0.prems"(4) obtain err where "convertPage doc st k = Inl err"
      by (cases "convertPage doc st k") auto
    with True show ?thesis by (subst pageLoop.simps) (simp add: ik)
  next
    case False
    then show ?thesis by (subst pageLoop.simps) (simp add: ik)
  qed
next
  case (Suc d)
  then have lt: "i < k" and le: "i \<le> numPages doc" by simp_all
  from Suc.prems(3) lt obtain img where img: "convertPage doc st i = Inr img"
    by (cases "convertPage doc st i") auto
  let ?s = "(app_state r)\<lparr>progress := progressPercent i (numPages doc)\<rparr>"
  let ?r = "\<lparr>app_state = ?s, images = images r @ [img], shown = shown r @ [?s]\<rparr>"
  have step: "pageLoop doc st i r = pageLoop doc st (i + 1) ?r"
    using le img by (subst pageLoop.simps) (simp add: Let_def)
  have d: "d = k - (i + 1)" using Suc.hyps(2) by simp
  have ok': "\<forall>j. i + 1 \<le> j \<and> j < k \<longrightarrow> \<not> isl (convertPage doc st j)"
    using Suc.prems(3) by simp
  have le': "i + 1 \<le> k" using lt by simp
  note IH = Suc.hyps(1)[OF d le' Suc.prems(2) ok' Suc.prems(4), of ?r]
  have upt: "[i..<k] = i # [i + 1..<k]" using lt by (simp add: upt_conv_Cons)
  show ?case
  proof (cases "i + 1 < k")
    case True
    show ?thesis unfolding step IH upt using True lt img by simp
  next
    case False
    with lt have "k - 1 = i" by simp
    then show ?thesis unfolding step IH upt using False lt img by simp
  qed
qed

lemma first_failure:
  obtains k where "1 \<le> k" "k \<le> numPages doc + 1"
    "\<forall>j. 1 \<le> j \<and> j < k \<longrightarrow> \<not> isl (convertPage doc st j)"
    "k \<le> numPages doc \<longrightarrow> isl (convertPage doc st k)"
proof (cases "\<exists>j. 1 \<le> j \<and> j \<le> numPages doc \<and> isl (convertPage doc st j)")
  case True
  define k where "k = (LEAST j. 1 \<le> j \<and> j \<le> numPages doc \<and> isl (convertPage doc st j))"
  have P: "1 \<le> k \<and> k \<le> numPages doc \<and> isl (convertPage doc st k)"
    unfolding k_def using True by (rule LeastI_ex)
  have m: "\<not> (1 \<le> j \<and> j \<le> numPages doc \<and> isl (convertPage doc st j))" if "j < k" for j
    using that unfolding k_def by (rule not_less_Least)
  have "\<forall>j. 1 \<le> j \<and> j < k \<longrightarrow> \<not> isl (convertPage doc st j)"
    using m P by force
  with P show ?thesis by (intro that[of k]) simp_all
next
  case False
  then show ?thesis by (intro that[of "numPages doc + 1"]) auto
qed

lemma convertPage_page: "convertPage doc st i = Inr img \<Longrightarrow> page img = i"
  by (auto simp: convertPage_def Let_def split: sum.splits)

lemma page_projr_convertPage: "\<not> isl (convertPage doc st i) \<Longrightarrow> page (projr (convertPage doc st i)) = i"
  by (cases "convertPage doc st i") (auto dest: convertPage_page)

lemma map_page_converted:
  assumes "\<forall>j. i \<le> j \<and> j < k \<longrightarrow> \<not> isl (convertPage doc st j)"
  shows "map page (map (\<lambda>j. projr (convertPage doc st j)) [i..<k]) = [i..<k]"
proof -
  have "map (\<lambda>j. page (projr (convertPage doc st j))) [i..<k] = map (\<lambda>j. j) [i..<k]"
    using assms by (intro map_cong) (auto simp: page_projr_convertPage)
  then show ?thesis by (simp add: comp_def)
qed

lemma convertPage_size:
  assumes "getPage doc i = Inr p" and "convertPage doc st i = Inr img"
  shows "width img = canvasDim 300 (vp_width (planViewport st p))"
    and "height img = canvasDim 150 (vp_height (planViewport st p))"
  using assms by (auto simp: convertPage_def Let_def split: sum.splits)

lemma startConversion_closed:
  assumes doc: "pdfDoc s = Some doc"
    and k: "1 \<le> k" "k \<le> numPages doc + 1"
    and ok: "\<forall>j. 1 \<le> j \<and> j < k \<longrightarrow> \<not> isl (convertPage doc (settings s) j)"
    and stop: "k \<le> numPages doc \<longrightarrow> isl (convertPage doc (settings s) k)"
  shows "images (startConversion s) = map (\<lambda>j. projr (convertPage doc (settings s) j)) [1..<k]"
    and "shown (startConversion s) =
          map (\<lambda>j. s\<lparr>status := Processing, progress := progressPercent j (numPages doc),
                       convertedImages := []\<rparr>) [1..<k]"
    and "k \<le> numPages doc \<Longrightarrow> app_state (startConversion s) =
          s\<lparr>status := Error,
            progress := (if 1 < k then progressPercent (k - 1) (numPages doc) else 0),
            convertedImages := [],
            errorMsg := conversionFailedMsg @ projl (convertPage doc (settings s) k)\<rparr>"
    and "k = numPages doc + 1 \<Longrightarrow> app_state (startConversion s) =
          s\<lparr>status := Done,
            progress := (if 1 < k then progressPercent (k - 1) (numPages doc) else 0),
            convertedImages := map (\<lambda>j. projr (convertPage doc (settings s) j)) [1..<k]\<rparr>"
proof -
  let ?s1 = "s\<lparr>status := Processing, progress := 0, convertedImages := []\<rparr>"
  note L = pageLoop_closed[OF k(1) k(2) ok stop, of "\<lparr>app_state = ?s1, images = [], shown = []\<rparr>"]
  show "images (startConversion s) = map (\<lambda>j. projr (convertPage doc (settings s) j)) [1..<k]"
    unfolding startConversion_def doc option.case Let_def L by simp
  show "shown (startConversion s) =
          map (\<lambda>j. s\<lparr>status := Processing, progress := progressPercent j (numPages doc),
                       convertedImages := []\<rparr>) [1..<k]"
    unfolding startConversion_def doc option.case Let_def L by simp
  show "app_state (startConversion s) =
          s\<lparr>status := Error,
            progress := (if 1 < k then progressPercent (k - 1) (numPages doc) else 0),
            convertedImages := [],
            errorMsg := conversionFailedMsg @ projl (convertPage doc (settings s) k)\<rparr>"
    if "k \<le> numPages doc"
    unfolding startConversion_def doc option.case Let_def L using that by simp
  show "app_state (startConversion s) =
          s\<lparr>status := Done,
            progress := (if 1 < k then progressPercent (k - 1) (numPages doc) else 0),
            convertedImages := map (\<lambda>j. projr (convertPage doc (settings s) j)) [1..<k]\<rparr>"
    if "k = numPages doc + 1"
    unfolding startConversion_def doc option.case Let_def L using that by simp
qed

lemma startConversion_settings: "settings (app_state (startConversion s)) = settings s"
proof (cases "pdfDoc s")
  case None
  then show ?thesis by (simp add: startConversion_def)
next
  case (Some doc)
  obtain k where k: "1 \<le> k" "k \<le> numPages doc + 1"
    and ok: "\<forall>j. 1 \<le> j \<and> j < k \<longrightarrow> \<not> isl (convertPage doc (settings s) j)"
    and stop: "k \<le> numPages doc \<longrightarrow> isl (convertPage doc (settings s) k)"
    by (rule first_failure)
  note C = startConversion_closed[OF Some k ok stop]
  show ?thesis
  proof (cases "k \<le> numPages doc")
    case True
    then show ?thesis by (simp add: C(3))
  next
    case False
    with k(2) have "k = numPages doc + 1" by simp
    then show ?thesis by (simp add: C(4))
  qed
qed

lemma startConversion_fileName: "fileName (app_state (startConversion s)) = fileName s"
proof (cases "pdfDoc s")
  case None
  then show ?thesis by (simp add: startConversion_def)
next
  case (Some doc)
  obtain k where k: "1 \<le> k" "k \<le> numPages doc + 1"
    and ok: "\<forall>j. 1 \<le> j \<and> j < k \<longrightarrow> \<not> isl (convertPage doc (settings s) j)"
    and stop: "k \<le> numPages doc \<longrightarrow> isl (convertPage doc (settings s) k)"
    by (rule first_failure)
  note C = startConversion_closed[OF Some k ok stop]
  show ?thesis
  proof (cases "k \<le> numPages doc")
    case True
    then show ?thesis by (simp add: C(3))
  next
    case False
    with k(2) have "k = numPages doc + 1" by simp
    then show ?thesis by (simp add: C(4))
  qed
qed

lemma shown_state:
  assumes "s' \<in> set (shown (startConversion s))"
  shows "convertedImages s' = []"
proof (cases "pdfDoc s")
  case None
  with assms show ?thesis by (simp add: startConversion_def)
next
  case (Some doc)
  obtain k where k: "1 \<le> k" "k \<le> numPages doc + 1"
    and ok: "\<forall>j. 1 \<le> j \<and> j < k \<longrightarrow> \<not> isl (convertPage doc (settings s) j)"
    and stop: "k \<le> numPages doc \<longrightarrow> isl (convertPage doc (settings s) k)"
    by (rule first_failure)
  from assms show ?thesis
    unfolding startConversion_closed(2)[OF Some k ok stop] by auto
qed

lemma final_state:
  "app_state (startConversion s) = s
   \<or> convertedImages (app_state (startConversion s)) = []
   \<or> (status (app_state (startConversion s)) = Done
      \<and> fileName (app_state (startConversion s)) = fileName s
      \<and> map page (convertedImages (app_state (startConversion s)))
          = [1..<length (convertedImages (app_state (startConversion s))) + 1])"
proof (cases "pdfDoc s")
  case None
  then show ?thesis by (simp add: startConversion_def)
next
  case (Some doc)
  obtain k where k: "1 \<le> k" "k \<le> numPages doc + 1"
    and ok: "\<forall>j. 1 \<le> j \<and> j < k \<longrightarrow> \<not> isl (convertPage doc (settings s) j)"
    and stop: "k \<le> numPages doc \<longrightarrow> isl (convertPage doc (settings s) k)"
    by (rule first_failure)
  note C = startConversion_closed[OF Some k ok stop]
  show ?thesis
  proof (cases "k \<le> numPages doc")
    case True
    then show ?thesis by (simp add: C(3))
  next
    case False
    with k(2) have e: "k = numPages doc + 1" by simp
    have m: "map page (map (\<lambda>j. projr (convertPage doc (settings s) j)) [1..<k]) = [1..<k]"
      using ok by (rule map_page_converted)
    have "map page (convertedImages (app_state (startConversion s)))
          = [1..<length (convertedImages (app_state (startConversion s))) + 1]"
      using m k(1) by (simp add: C(4)[OF e])
    then show ?thesis by (simp add: C(4)[OF e])
  qed
qed

section \<open>The progress value\<close>

lemma progressPercent_last: "1 \<le> n \<Longrightarrow> progressPercent n n = 100"
  by (simp add: progressPercent_def js_div_def js_mul_def fl_one fl_hundred Math_round_hundred)

lemma progressPercent_mono:
  assumes "1 \<le> i" "i \<le> j" "1 \<le> n"
  shows "progressPercent i n \<le> progressPercent j n"
proof -
  have n: "(0::rat) < of_nat n" using assms(3) by simp
  have i: "(0::rat) < of_nat i / of_nat n" using assms(1) n by simp
  have "(of_nat i :: rat) \<le> of_nat j" using assms(2) by simp
  then have "(of_nat i :: rat) / of_nat n \<le> of_nat j / of_nat n"
    using n by (simp add: divide_right_mono)
  with i have a: "fl (of_nat i / of_nat n) \<le> fl (of_nat j / of_nat n)" by (rule fl_mono)
  have p: "0 < fl (of_nat i / of_nat n) * 100" using fl_pos[OF i] by simp
  from a have "fl (of_nat i / of_nat n) * 100 \<le> fl (of_nat j / of_nat n) * 100" by simp
  with p have "fl (fl (of_nat i / of_nat n) * 100) \<le> fl (fl (of_nat j / of_nat n) * 100)"
    by (rule fl_mono)
  then show ?thesis
    by (simp add: progressPercent_def js_mul_def js_div_def Math_round_def floor_mono)
qed

lemma progressPercent_nonneg:
  assumes "1 \<le> i" "1 \<le> n"
  shows "0 \<le> progressPercent i n"
proof -
  have "(0::rat) < of_nat i / of_nat n" using assms by simp
  then have "0 < fl (of_nat i / of_nat n) * 100" using fl_pos by simp
  then have "0 < fl (fl (of_nat i / of_nat n) * 100)" by (rule fl_pos)
  then show ?thesis
    by (simp add: progressPercent_def js_mul_def js_div_def Math_round_def)
qed

lemma sorted_progress:
  assumes "k \<le> n + 1"
  shows "sorted (map (\<lambda>j. progressPercent j n) [1..<k])"
proof -
  have "sorted_wrt (\<lambda>x y. progressPercent x n \<le> progressPercent y n) [1..<k]"
  proof (rule sorted_wrt_mono_rel[of _ "(<)"])
    show "sorted_wrt (<) [1..<k]" by (rule sorted_wrt_upt)
    fix x y assume "x \<in> set [1..<k]" "y \<in> set [1..<k]" "x < y"
    then have "1 \<le> x" "x \<le> y" "1 \<le> n" using assms by auto
    then show "progressPercent x n \<le> progressPercent y n" by (rule progressPercent_mono)
  qed
  then show ?thesis by (simp add: sorted_map)
qed


lemma progressPercent_2_3: "progressPercent 2 3 = 67"
  by code_simp

lemma progressPercent_200_201: "progressPercent 200 201 = 100"
  by code_simp

text \<open>
  \<^verbatim>\<open>Math.round((i / totalPages) * 100)\<close> is computed in binary64. Where \<open>100 i / N\<close> lies
  exactly between two integers the computed product can fall just below it: page 23 of
  40 is displayed as 57 per cent, and page 1 of 8 as 13.
\<close>

lemma progressPercent_ties:
  "progressPercent 23 40 = 57" "progressPercent 1 8 = 13"
  by code_simp+

section \<open>The size of the canvas\<close>

lemma canvasDim_floor:
  assumes "0 \<le> x" "x < 2 ^ 31"
  shows "canvasDim d x = \<lfloor>x\<rfloor>"
proof -
  have "0 \<le> \<lfloor>x\<rfloor>" using assms(1) by simp
  moreover have "\<lfloor>x\<rfloor> < 2 ^ 31" using assms(2) by (simp add: floor_less_iff)
  ultimately show ?thesis using assms(1) by (simp add: canvasDim_def Let_def)
qed


lemma floor_within:
  assumes "0 < x" and "js_mul x y < 2 ^ 31" and "0 < y"
  shows "canvasDim d (js_mul x y) = \<lfloor>js_mul x y\<rfloor>"
    and "rat_of_int \<lfloor>js_mul x y\<rfloor> \<le> x * y * (1 + 1 / 2 ^ 53)"
    and "x * y * (1 - 1 / 2 ^ 53) - 1 < rat_of_int \<lfloor>js_mul x y\<rfloor>"
proof -
  have xy: "0 < x * y" using assms(1,3) by simp
  have p: "0 \<le> js_mul x y" unfolding js_mul_def using fl_pos[OF xy] by simp
  from p assms(2) show "canvasDim d (js_mul x y) = \<lfloor>js_mul x y\<rfloor>" by (rule canvasDim_floor)
  have "rat_of_int \<lfloor>js_mul x y\<rfloor> \<le> js_mul x y" by simp
  with fl_upper[OF xy] show "rat_of_int \<lfloor>js_mul x y\<rfloor> \<le> x * y * (1 + 1 / 2 ^ 53)"
    unfolding js_mul_def by linarith
  have "js_mul x y - 1 < rat_of_int \<lfloor>js_mul x y\<rfloor>" by linarith
  with fl_lower[OF xy] show "x * y * (1 - 1 / 2 ^ 53) - 1 < rat_of_int \<lfloor>js_mul x y\<rfloor>"
    unfolding js_mul_def by linarith
qed






section \<open>The reachable states\<close>

lemma reachable_invariant:
  assumes "reachable s"
  shows "map page (convertedImages s) = [1..<length (convertedImages s) + 1]
       \<and> (convertedImages s \<noteq> [] \<longrightarrow> fileName s \<noteq> None \<and> status s = Done)"
  using assms
proof (induction rule: reachable.induct)
  case r_init
  show ?case by (simp add: initialApp_def)
next
  case (r_file s f)
  then show ?case
    by (auto simp: handleFileChange_def chooseFile_def split: option.splits sum.splits)
next
  case (r_parsing s name)
  show ?case by (simp add: chooseFile_def)
next
  case (r_parsed s pdf)
  then show ?case by simp
next
  case (r_parse_failed s)
  then show ?case by simp
next
  case (r_remove s)
  then show ?case by (auto simp: removeFile_def)
next
  case (r_reset s)
  show ?case by (simp add: reset_def)
next
  case (r_settings s st)
  then show ?case by simp
next
  case (r_shown s s')
  from shown_state[OF r_shown.hyps(4)] show ?case by simp
next
  case (r_convert s)
  from final_state[of s] show ?case
  proof (elim disjE)
    assume "app_state (startConversion s) = s"
    with r_convert.IH show ?thesis by simp
  next
    assume "convertedImages (app_state (startConversion s)) = []"
    then show ?thesis by simp
  next
    assume "status (app_state (startConversion s)) = Done
      \<and> fileName (app_state (startConversion s)) = fileName s
      \<and> map page (convertedImages (app_state (startConversion s)))
          = [1..<length (convertedImages (app_state (startConversion s))) + 1]"
    with r_convert.hyps(2) show ?thesis by simp
  qed
qed

section \<open>The sample documents\<close>

lemma letterDoc_converts: "\<not> isl (convertPage (letterDoc n) st i)"
  by (simp add: convertPage_def letterDoc_def samplePage_def Let_def)

lemma brokenDoc_converts: "i \<noteq> k \<Longrightarrow> \<not> isl (convertPage (brokenDoc n k) st i)"
  by (simp add: convertPage_def brokenDoc_def samplePage_def Let_def)

lemma brokenDoc_fails: "convertPage (brokenDoc n k) st k = Inl ''Unknown colour space''"
  by (simp add: convertPage_def brokenDoc_def brokenPage_def Let_def)

lemma loaded_simps:
  "pdfDoc (loaded name doc) = Some doc"
  "fileName (loaded name doc) = Some name"
  "settings (loaded name doc) = initialSettings"
  "status (loaded name doc) = Idle"
  "convertedImages (loaded name doc) = []"
  by (simp_all add: loaded_def handleFileChange_def chooseFile_def initialApp_def)

lemma loaded_reachable: "reachable (loaded name doc)"
  unfolding loaded_def by (rule r_file[OF r_init]) (simp add: initialApp_def)

lemma converted_reachable: "reachable (app_state (startConversion (loaded name doc)))"
  by (rule r_convert[OF loaded_reachable]) (simp_all add: loaded_simps)

lemma letterDoc_converted:
  "convertedImages (app_state (startConversion (loaded name (letterDoc n))))
     = map (\<lambda>j. \<lparr>page = j, dataUrl = ''data:image/png;base64,iVBORw0KGgo='',
                  width = 1224, height = 1584\<rparr>) [1..<n + 1]"
proof -
  let ?s = "loaded name (letterDoc n)"
  have h: "pdfDoc ?s = Some (letterDoc n)" by (simp add: loaded_simps)
  have k: "(1::nat) \<le> n + 1" "n + 1 \<le> numPages (letterDoc n) + 1" by (simp_all add: letterDoc_def)
  have ok: "\<forall>j. 1 \<le> j \<and> j < n + 1 \<longrightarrow> \<not> isl (convertPage (letterDoc n) (settings ?s) j)"
    by (simp add: letterDoc_converts)
  have stop: "n + 1 \<le> numPages (letterDoc n) \<longrightarrow> isl (convertPage (letterDoc n) (settings ?s) (n + 1))"
    by (simp add: letterDoc_def)
  have e: "n + 1 = numPages (letterDoc n) + 1" by (simp add: letterDoc_def)
  have v: "js_mul 612 2 = 1224" "js_mul 792 2 = 1584" by code_simp+
  have d: "canvasDim 300 1224 = 1224" "canvasDim 150 1584 = 1584" by code_simp+
  have c: "projr (convertPage (letterDoc n) (settings ?s) j)
      = \<lparr>page = j, dataUrl = ''data:image/png;base64,iVBORw0KGgo='', width = 1224, height = 1584\<rparr>" for j
    by (simp add: convertPage_def letterDoc_def samplePage_def loaded_simps initialSettings_def
        planViewport_def getViewport_def Let_def v d)
  show ?thesis
    by (simp only: startConversion_closed(4)[OF h k ok stop e] c) simp
qed

section \<open>Names of files and entries\<close>

declare digits.simps [simp del]

lemma digits_1: "digits 1 = ''1''"
  by code_simp

lemma digits_Suc_0: "digits (Suc 0) = ''1''"
  using digits_1 by simp

lemma digits_2: "digits 2 = ''2''"
  by code_simp

lemma digits_nonempty: "digits n \<noteq> []"
  by (subst digits.simps) simp

lemma digit_inj:
  assumes "a < 10" "b < 10" "char_of (48 + a :: nat) = char_of (48 + b :: nat)"
  shows "a = b"
proof -
  have "48 + a \<in> {0..<256}" "48 + b \<in> {0..<256}" using assms(1,2) by simp_all
  with assms(3) have "48 + a = 48 + b"
    using inj_on_char_of_nat by (auto dest: inj_onD)
  then show ?thesis by simp
qed

lemma digits_inj: "digits m = digits n \<Longrightarrow> m = n"
proof (induction m arbitrary: n rule: digits.induct)
  case (1 m)
  show ?case
  proof (cases "m < 10")
    case True
    then have m: "digits m = [char_of (48 + m)]" by (subst digits.simps) simp
    show ?thesis
    proof (cases "n < 10")
      case n: True
      then have "digits n = [char_of (48 + n)]" by (subst digits.simps) simp
      with m "1.prems" True n show ?thesis by (auto dest: digit_inj)
    next
      case False
      then have "digits n = digits (n div 10) @ [char_of (48 + n mod 10)]"
        by (subst digits.simps) simp
      with m "1.prems" digits_nonempty[of "n div 10"] show ?thesis by simp
    qed
  next
    case False
    then have m: "digits m = digits (m div 10) @ [char_of (48 + m mod 10)]"
      by (subst digits.simps) simp
    show ?thesis
    proof (cases "n < 10")
      case True
      then have "digits n = [char_of (48 + n)]" by (subst digits.simps) simp
      with m "1.prems" digits_nonempty[of "m div 10"] show ?thesis by simp
    next
      case n: False
      then have "digits n = digits (n div 10) @ [char_of (48 + n mod 10)]"
        by (subst digits.simps) simp
      with m "1.prems" have e: "digits (m div 10) = digits (n div 10)"
        and c: "char_of (48 + m mod 10) = char_of (48 + n mod 10)" by simp_all
      from "1.IH"[OF False e] have "m div 10 = n div 10" .
      moreover have "m mod 10 = n mod 10" using c by (intro digit_inj) simp_all
      ultimately show ?thesis by (metis div_mult_mod_eq)
    qed
  qed
qed

lemma zip_file_new: "name \<notin> fst ` set es \<Longrightarrow> zip_file name c es = es @ [(name, c)]"
  by (induction es) auto

lemma foldl_zip_file:
  assumes "distinct (map f xs)" and "\<forall>x \<in> set xs. f x \<notin> fst ` set acc"
  shows "foldl (\<lambda>z x. zip_file (f x) (g x) z) acc xs = acc @ map (\<lambda>x. (f x, g x)) xs"
  using assms
proof (induction xs arbitrary: acc)
  case Nil
  show ?case by simp
next
  case (Cons x xs)
  have new: "f x \<notin> fst ` set acc" using Cons.prems(2) by simp
  have d: "distinct (map f xs)" using Cons.prems(1) by simp
  have "\<forall>y \<in> set xs. f y \<notin> fst ` set (acc @ [(f x, g x)])"
    using Cons.prems by (auto simp: image_iff)
  from Cons.IH[OF d this] show ?case by (simp add: zip_file_new[OF new])
qed

lemma entry_names_distinct:
  assumes "distinct (map page xs)"
  shows "distinct (map (\<lambda>img. pre @ digits (page img) @ post) xs)"
proof -
  have "inj_on (\<lambda>img. pre @ digits (page img) @ post) (set xs)
        \<longleftrightarrow> inj_on page (set xs)"
    by (auto simp: inj_on_def dest: digits_inj)
  moreover have "inj_on page (set xs)" using assms by (simp add: distinct_map)
  moreover have "distinct xs" using assms by (simp add: distinct_map)
  ultimately show ?thesis by (simp add: distinct_map)
qed

lemma strip_examples:
  "replaceFirst ''.pdf'' [] ''letter.pdf'' = ''letter''"
  "replaceFirst ''.pdf'' [] ''Report.PDF'' = ''Report.PDF''"
  "replaceFirst ''.pdf'' [] ''plan.pdf.v2.pdf'' = ''plan.v2.pdf''"
  by code_simp+

lemma two_letter_pages:
  "downloadAll (app_state (startConversion (loaded name (letterDoc 2))))
     = SaveZip [(''images/'', Folder),
                (''images/page-1.png'', Base64 (Some ''iVBORw0KGgo='')),
                (''images/page-2.png'', Base64 (Some ''iVBORw0KGgo=''))]
         (replaceFirst ''.pdf'' [] name @ ''-images.zip'')"
proof -
  let ?s = "app_state (startConversion (loaded name (letterDoc 2)))"
  have u: "[1..<2 + 1] = [1, 2::nat]" by (simp add: upt_rec)
  have i: "convertedImages ?s =
     [\<lparr>page = 1, dataUrl = ''data:image/png;base64,iVBORw0KGgo='', width = 1224, height = 1584\<rparr>,
      \<lparr>page = 2, dataUrl = ''data:image/png;base64,iVBORw0KGgo='', width = 1224, height = 1584\<rparr>]"
    unfolding letterDoc_converted u by simp
  have f: "format (settings ?s) = ''png''"
    by (simp add: startConversion_settings loaded_simps initialSettings_def)
  have n: "fileName ?s = Some name"
    by (simp add: startConversion_fileName loaded_simps)
  show ?thesis
    unfolding downloadAll_def i f n
    by (simp add: digits_Suc_0 digits_2 at_index_def Let_def)
qed

text \<open>
  The part of claim C6 that holds: in every state the component can be in with two or
  more results, the archive holds the folder \<^verbatim>\<open>images/\<close> and, for each result in turn,
  one entry \<^verbatim>\<open>images/page-<page>.<format>\<close>; these names differ from one another, one for
  each page index.
\<close>

lemma bundle_entries:
  assumes "reachable s" and "2 \<le> length (convertedImages s)"
  shows "\<exists>name. fileName s = Some name
       \<and> downloadAll s = SaveZip
           ((''images/'', Folder) #
            map (\<lambda>img. (''images/page-'' @ digits (page img) @ ''.'' @ format (settings s),
                        Base64 (at_index (splitOn CHR '','' (dataUrl img)) 1)))
              (convertedImages s))
           (replaceFirst ''.pdf'' [] name @ ''-images.zip'')"
    and "distinct (map (\<lambda>img. ''images/page-'' @ digits (page img) @ ''.'' @ format (settings s))
           (convertedImages s))"
    and "map page (convertedImages s) = [1..<length (convertedImages s) + 1]"
proof -
  note I = reachable_invariant[OF assms(1)]
  let ?f = "\<lambda>img. ''images/page-'' @ digits (page img) @ ''.'' @ format (settings s)"
  let ?g = "\<lambda>img. Base64 (at_index (splitOn CHR '','' (dataUrl img)) 1)"
  show p: "map page (convertedImages s) = [1..<length (convertedImages s) + 1]"
    using I by blast
  have dp: "distinct (map page (convertedImages s))" unfolding p by simp
  show d: "distinct (map ?f (convertedImages s))"
    using dp by (rule entry_names_distinct)
  have ne: "convertedImages s \<noteq> []" using assms(2) by (cases "convertedImages s") simp_all
  with I obtain name where name: "fileName s = Some name" by auto
  have len: "length (convertedImages s) \<noteq> 0" "length (convertedImages s) \<noteq> 1"
    using assms(2) by auto
  have fresh: "\<forall>img \<in> set (convertedImages s). ?f img \<notin> fst ` set [(''images/'', Folder)]"
    by simp
  have "foldl (\<lambda>z img. zip_file (?f img) (?g img) z) [(''images/'', Folder)] (convertedImages s)
      = [(''images/'', Folder)] @ map (\<lambda>img. (?f img, ?g img)) (convertedImages s)"
    using d fresh by (rule foldl_zip_file)
  then have "downloadAll s = SaveZip
           ((''images/'', Folder) # map (\<lambda>img. (?f img, ?g img)) (convertedImages s))
           (replaceFirst ''.pdf'' [] name @ ''-images.zip'')"
    using len name by (simp add: downloadAll_def Let_def)
  with name show "\<exists>name. fileName s = Some name
       \<and> downloadAll s = SaveZip
           ((''images/'', Folder) # map (\<lambda>img. (?f img, ?g img)) (convertedImages s))
           (replaceFirst ''.pdf'' [] name @ ''-images.zip'')"
    by blast
qed

section \<open>The claims\<close>



text \<open>
  Claim C2, amended. When pages \<open>1, \<dots>, k - 1\<close> convert and page \<open>k\<close> fails, the run
  ends with the status \<open>Error\<close> and the message of the failure; the local array holds
  exactly the \<open>k - 1\<close> results of pages \<open>1, \<dots>, k - 1\<close>, and the results the component
  offers, \<^verbatim>\<open>convertedImages\<close>, are empty.
\<close>

theorem conversion_failure:
  assumes "pdfDoc s = Some doc"
    and "1 \<le> k" and "k \<le> numPages doc"
    and "\<forall>j. 1 \<le> j \<and> j < k \<longrightarrow> \<not> isl (convertPage doc (settings s) j)"
    and "convertPage doc (settings s) k = Inl err"
  shows "status (app_state (startConversion s)) = Error
       \<and> errorMsg (app_state (startConversion s)) = conversionFailedMsg @ err
       \<and> images (startConversion s) = map (\<lambda>j. projr (convertPage doc (settings s) j)) [1..<k]
       \<and> length (images (startConversion s)) = k - 1
       \<and> map page (images (startConversion s)) = [1..<k]
       \<and> convertedImages (app_state (startConversion s)) = []"
proof -
  have k1: "k \<le> numPages doc + 1" using assms(3) by simp
  have stop: "k \<le> numPages doc \<longrightarrow> isl (convertPage doc (settings s) k)"
    using assms(5) by simp
  note C = startConversion_closed[OF assms(1) assms(2) k1 assms(4) stop]
  have im: "images (startConversion s) = map (\<lambda>j. projr (convertPage doc (settings s) j)) [1..<k]"
    by (rule C(1))
  have "map page (images (startConversion s)) = [1..<k]"
    unfolding im using assms(4) by (rule map_page_converted)
  moreover have "length (images (startConversion s)) = k - 1"
    by (simp add: im)
  ultimately show ?thesis
    using im by (simp add: C(3)[OF assms(3)] assms(5))
qed

theorem conversion_failure_witness:
  "pdfDoc (loaded ''scan.pdf'' (brokenDoc 3 3)) = Some (brokenDoc 3 3)
   \<and> (1::nat) \<le> 3 \<and> 3 \<le> numPages (brokenDoc 3 3)
   \<and> \<not> isl (convertPage (brokenDoc 3 3) (settings (loaded ''scan.pdf'' (brokenDoc 3 3))) 1)
   \<and> \<not> isl (convertPage (brokenDoc 3 3) (settings (loaded ''scan.pdf'' (brokenDoc 3 3))) 2)
   \<and> convertPage (brokenDoc 3 3) (settings (loaded ''scan.pdf'' (brokenDoc 3 3))) 3
        = Inl ''Unknown colour space''
   \<and> status (app_state (startConversion (loaded ''scan.pdf'' (brokenDoc 3 3)))) = Error
   \<and> map page (images (startConversion (loaded ''scan.pdf'' (brokenDoc 3 3)))) = [1, 2]
   \<and> convertedImages (app_state (startConversion (loaded ''scan.pdf'' (brokenDoc 3 3)))) = []"
proof -
  let ?s = "loaded ''scan.pdf'' (brokenDoc 3 3)"
  have h1: "pdfDoc ?s = Some (brokenDoc 3 3)" by (simp add: loaded_simps)
  have h2: "(1::nat) \<le> 3" by simp
  have h3: "3 \<le> numPages (brokenDoc 3 3)" by (simp add: brokenDoc_def)
  have h4: "\<forall>j. 1 \<le> j \<and> j < 3 \<longrightarrow> \<not> isl (convertPage (brokenDoc 3 3) (settings ?s) j)"
    by (simp add: brokenDoc_converts)
  have h5: "convertPage (brokenDoc 3 3) (settings ?s) 3 = Inl ''Unknown colour space''"
    by (rule brokenDoc_fails)
  have u: "[1..<3] = [1, 2::nat]" by (simp add: upt_rec)
  note T = conversion_failure[OF h1 h2 h3 h4 h5, unfolded u]
  have c1: "status (app_state (startConversion ?s)) = Error" using T by blast
  have c2: "map page (images (startConversion ?s)) = [1, 2]" using T by blast
  have c3: "convertedImages (app_state (startConversion ?s)) = []" using T by blast
  have o: "\<not> isl (convertPage (brokenDoc 3 3) (settings ?s) 1)"
    "\<not> isl (convertPage (brokenDoc 3 3) (settings ?s) 2)"
    by (simp_all add: brokenDoc_converts)
  from h1 h2 h3 o h5 c1 c2 c3 show ?thesis by blast
qed

text \<open>
  The claim as stated fails: after page 2 of two pages has failed, one result was
  produced and the component offers none.
\<close>

theorem conversion_failure_counterexample:
  "status (app_state (startConversion (loaded ''scan.pdf'' (brokenDoc 2 2)))) = Error
   \<and> length (images (startConversion (loaded ''scan.pdf'' (brokenDoc 2 2)))) = 1
   \<and> convertedImages (app_state (startConversion (loaded ''scan.pdf'' (brokenDoc 2 2))))
       \<noteq> images (startConversion (loaded ''scan.pdf'' (brokenDoc 2 2)))"
proof -
  let ?s = "loaded ''scan.pdf'' (brokenDoc 2 2)"
  have h1: "pdfDoc ?s = Some (brokenDoc 2 2)" by (simp add: loaded_simps)
  have k: "(1::nat) \<le> 2" "2 \<le> numPages (brokenDoc 2 2) + 1" by (simp_all add: brokenDoc_def)
  have le: "2 \<le> numPages (brokenDoc 2 2)" by (simp add: brokenDoc_def)
  have ok: "\<forall>j. 1 \<le> j \<and> j < 2 \<longrightarrow> \<not> isl (convertPage (brokenDoc 2 2) (settings ?s) j)"
    by (simp add: brokenDoc_converts)
  have stop: "2 \<le> numPages (brokenDoc 2 2) \<longrightarrow> isl (convertPage (brokenDoc 2 2) (settings ?s) 2)"
    by (simp add: brokenDoc_fails)
  note C = startConversion_closed[OF h1 k ok stop]
  have "length (images (startConversion ?s)) = 1" by (simp add: C(1))
  moreover have "status (app_state (startConversion ?s)) = Error"
    and "convertedImages (app_state (startConversion ?s)) = []"
    by (simp_all add: C(3)[OF le])
  ultimately show ?thesis by auto
qed

text \<open>
  Claim C3, amended. With positive page size and scale and \<^verbatim>\<open>maxPageWidth\<close> 0, the
  viewport keeps the chosen scale and the result's width and height are what the canvas
  makes of the scaled width and height: below \<open>2\<^sup>3\<^sup>1\<close> the scaled size with its
  fraction cut off, not rounded. Each is then at most one pixel below the exactly scaled
  size, up to the rounding of one multiplication.
\<close>

theorem unconstrained_page_size:
  assumes "getPage doc i = Inr p" and "convertPage doc st i = Inr img"
    and "0 < pwidth p" and "0 < pheight p" and "0 < scale st"
    and "maxPageWidth st = 0"
  shows "vp_scale (planViewport st p) = scale st
       \<and> width img = canvasDim 300 (js_mul (pwidth p) (scale st))
       \<and> height img = canvasDim 150 (js_mul (pheight p) (scale st))
       \<and> (js_mul (pwidth p) (scale st) < 2 ^ 31 \<longrightarrow>
            width img = \<lfloor>js_mul (pwidth p) (scale st)\<rfloor>
          \<and> of_int (width img) \<le> pwidth p * scale st * (1 + 1 / 2 ^ 53)
          \<and> pwidth p * scale st * (1 - 1 / 2 ^ 53) - 1 < of_int (width img))
       \<and> (js_mul (pheight p) (scale st) < 2 ^ 31 \<longrightarrow>
            height img = \<lfloor>js_mul (pheight p) (scale st)\<rfloor>
          \<and> of_int (height img) \<le> pheight p * scale st * (1 + 1 / 2 ^ 53)
          \<and> pheight p * scale st * (1 - 1 / 2 ^ 53) - 1 < of_int (height img))"
proof -
  have pv: "planViewport st p = getViewport p (scale st)"
    using assms(6) by (simp add: planViewport_def Let_def)
  have w: "width img = canvasDim 300 (js_mul (pwidth p) (scale st))"
    using convertPage_size(1)[OF assms(1,2)] by (simp add: pv getViewport_def)
  have h: "height img = canvasDim 150 (js_mul (pheight p) (scale st))"
    using convertPage_size(2)[OF assms(1,2)] by (simp add: pv getViewport_def)
  have W: "width img = \<lfloor>js_mul (pwidth p) (scale st)\<rfloor>
          \<and> of_int (width img) \<le> pwidth p * scale st * (1 + 1 / 2 ^ 53)
          \<and> pwidth p * scale st * (1 - 1 / 2 ^ 53) - 1 < of_int (width img)"
    if "js_mul (pwidth p) (scale st) < 2 ^ 31"
    using floor_within(1)[OF assms(3) that assms(5), of 300]
      floor_within(2,3)[OF assms(3) that assms(5)] by (simp add: w)
  have H: "height img = \<lfloor>js_mul (pheight p) (scale st)\<rfloor>
          \<and> of_int (height img) \<le> pheight p * scale st * (1 + 1 / 2 ^ 53)
          \<and> pheight p * scale st * (1 - 1 / 2 ^ 53) - 1 < of_int (height img)"
    if "js_mul (pheight p) (scale st) < 2 ^ 31"
    using floor_within(1)[OF assms(4) that assms(5), of 150]
      floor_within(2,3)[OF assms(4) that assms(5)] by (simp add: h)
  have "vp_scale (planViewport st p) = scale st" by (simp add: pv getViewport_def)
  with w h W H show ?thesis by blast
qed

theorem unconstrained_page_size_witness:
  "getPage (letterDoc 1) 1 = Inr (samplePage 612 792)
   \<and> \<not> isl (convertPage (letterDoc 1) initialSettings 1)
   \<and> maxPageWidth initialSettings = 0
   \<and> js_mul 612 2 < 2 ^ 31 \<and> js_mul 792 2 < 2 ^ 31
   \<and> vp_scale (planViewport initialSettings (samplePage 612 792)) = 2
   \<and> width (projr (convertPage (letterDoc 1) initialSettings 1)) = 1224
   \<and> height (projr (convertPage (letterDoc 1) initialSettings 1)) = 1584"
proof -
  have g: "getPage (letterDoc 1) 1 = Inr (samplePage 612 792)" by (simp add: letterDoc_def)
  have ok: "\<not> isl (convertPage (letterDoc 1) initialSettings 1)" by (rule letterDoc_converts)
  then have c: "convertPage (letterDoc 1) initialSettings 1
      = Inr (projr (convertPage (letterDoc 1) initialSettings 1))" by simp
  have p: "0 < pwidth (samplePage 612 792)" "0 < pheight (samplePage 612 792)"
    "0 < scale initialSettings" "maxPageWidth initialSettings = 0"
    by (simp_all add: samplePage_def initialSettings_def)
  have v: "js_mul 612 2 = 1224" "js_mul 792 2 = 1584" by code_simp+
  have d: "canvasDim 300 1224 = 1224" "canvasDim 150 1584 = 1584" by code_simp+
  note T = unconstrained_page_size[OF g c p]
  have s: "pwidth (samplePage 612 792) = 612" "pheight (samplePage 612 792) = 792"
    "scale initialSettings = 2"
    by (simp_all add: samplePage_def initialSettings_def)
  from T have "vp_scale (planViewport initialSettings (samplePage 612 792)) = 2"
    and "width (projr (convertPage (letterDoc 1) initialSettings 1)) = 1224"
    and "height (projr (convertPage (letterDoc 1) initialSettings 1)) = 1584"
    unfolding s v d by blast+
  moreover have "js_mul 612 2 < 2 ^ 31" "js_mul 792 2 < 2 ^ 31" by (simp_all add: v)
  ultimately show ?thesis using g ok p(4) by blast
qed

text \<open>
  The claim as stated fails: an A4 page of 595 by 842 points at the scale 1.5 has the
  scaled width 892.5; the canvas and the result are 892 pixels wide, and rounding gives
  893.
\<close>

theorem unconstrained_page_size_counterexample:
  "maxPageWidth (initialSettings\<lparr>scale := 3 / 2\<rparr>) = 0
   \<and> width (projr (convertPage (a4Doc 1) (initialSettings\<lparr>scale := 3 / 2\<rparr>) 1)) = 892
   \<and> Math_round (js_mul 595 (3 / 2)) = 893"
proof -
  have v: "js_mul 595 (3 / 2) = 1785 / 2" "js_mul 842 (3 / 2) = 1263" by code_simp+
  have d: "canvasDim 300 (1785 / 2) = 892" "Math_round (1785 / 2) = 893" by code_simp+
  show ?thesis
    by (simp add: convertPage_def a4Doc_def samplePage_def initialSettings_def planViewport_def
        getViewport_def Let_def v d)
qed



text \<open>
  Claim C5. In every state the component can be in, \<^verbatim>\<open>downloadAll\<close> hands a single
  file to \<^verbatim>\<open>saveAs\<close> exactly when there is one result; the file then carries the data of
  that result under the name \<^verbatim>\<open>page-<page>.<format>\<close>, with the page index of that result
  (always 1) and the format of the settings; with two or more results it hands over an
  archive instead.
\<close>

theorem single_file_delivery:
  assumes "reachable s"
  shows "((\<exists>d n. downloadAll s = SaveAs d n) \<longleftrightarrow> length (convertedImages s) = 1)
       \<and> (length (convertedImages s) = 1 \<longrightarrow>
            downloadAll s = SaveAs (dataUrl (hd (convertedImages s)))
              (''page-'' @ digits (page (hd (convertedImages s))) @ ''.'' @ format (settings s)))
       \<and> (2 \<le> length (convertedImages s) \<longrightarrow> (\<exists>z n. downloadAll s = SaveZip z n))"
proof -
  note I = reachable_invariant[OF assms]
  have one: "downloadAll s = SaveAs (dataUrl (hd (convertedImages s)))
              (''page-'' @ digits (page (hd (convertedImages s))) @ ''.'' @ format (settings s))"
    if "length (convertedImages s) = 1"
  proof -
    from that obtain img where img: "convertedImages s = [img]"
      by (cases "convertedImages s") auto
    with I have "page img = 1" by simp
    then have "digits (page img) = ''1''" by (simp only: digits_1)
    then show ?thesis by (simp add: downloadAll_def img)
  qed
  have many: "\<exists>z n. downloadAll s = SaveZip z n" if "2 \<le> length (convertedImages s)"
  proof -
    have ne: "convertedImages s \<noteq> []" using that by (cases "convertedImages s") simp_all
    with I obtain name where "fileName s = Some name" by auto
    moreover have "length (convertedImages s) \<noteq> 0" "length (convertedImages s) \<noteq> 1"
      using that by auto
    ultimately show ?thesis by (simp add: downloadAll_def Let_def)
  qed
  have iff: "(\<exists>d n. downloadAll s = SaveAs d n) \<longleftrightarrow> length (convertedImages s) = 1"
  proof
    assume "\<exists>d n. downloadAll s = SaveAs d n"
    then show "length (convertedImages s) = 1"
      by (auto simp: downloadAll_def Let_def split: if_splits option.splits)
  next
    assume "length (convertedImages s) = 1"
    with one show "\<exists>d n. downloadAll s = SaveAs d n" by blast
  qed
  from iff one many show ?thesis by blast
qed

theorem single_file_delivery_witness:
  "reachable (app_state (startConversion (loaded ''letter.pdf'' (letterDoc 1))))
   \<and> length (convertedImages (app_state (startConversion (loaded ''letter.pdf'' (letterDoc 1))))) = 1
   \<and> downloadAll (app_state (startConversion (loaded ''letter.pdf'' (letterDoc 1))))
       = SaveAs ''data:image/png;base64,iVBORw0KGgo='' ''page-1.png''
   \<and> reachable (app_state (startConversion (loaded ''letter.pdf'' (letterDoc 2))))
   \<and> 2 \<le> length (convertedImages (app_state (startConversion (loaded ''letter.pdf'' (letterDoc 2)))))
   \<and> (\<exists>z n. downloadAll (app_state (startConversion (loaded ''letter.pdf'' (letterDoc 2))))
              = SaveZip z n)"
proof -
  let ?s1 = "app_state (startConversion (loaded ''letter.pdf'' (letterDoc 1)))"
  let ?s2 = "app_state (startConversion (loaded ''letter.pdf'' (letterDoc 2)))"
  have r1: "reachable ?s1" and r2: "reachable ?s2" by (rule converted_reachable)+
  have u: "[1..<1 + 1] = [1::nat]" "[1..<2 + 1] = [1, 2::nat]" by (simp_all add: upt_rec)
  have i1: "convertedImages ?s1 = [\<lparr>page = 1, dataUrl = ''data:image/png;base64,iVBORw0KGgo='',
                  width = 1224, height = 1584\<rparr>]"
    unfolding letterDoc_converted u by simp
  have l1: "length (convertedImages ?s1) = 1" unfolding i1 by simp
  have l2: "2 \<le> length (convertedImages ?s2)" unfolding letterDoc_converted by simp
  have f: "format (settings ?s1) = ''png''"
    by (simp add: startConversion_settings loaded_simps initialSettings_def)
  from single_file_delivery[OF r1] l1
  have "downloadAll ?s1 = SaveAs (dataUrl (hd (convertedImages ?s1)))
              (''page-'' @ digits (page (hd (convertedImages ?s1))) @ ''.'' @ format (settings ?s1))"
    by blast
  then have d1: "downloadAll ?s1 = SaveAs ''data:image/png;base64,iVBORw0KGgo='' ''page-1.png''"
    unfolding i1 f by (simp add: digits_Suc_0)
  from single_file_delivery[OF r2] l2
  have d2: "\<exists>z n. downloadAll ?s2 = SaveZip z n" by blast
  from r1 l1 d1 r2 l2 d2 show ?thesis by blast
qed

text \<open>
  Claim C6. The archive is meant to be named after the document with its extension
  taken off. \<^verbatim>\<open>file.name.replace('.pdf', '')\<close> takes off the first \<^verbatim>\<open>.pdf\<close> anywhere in the
  name and nothing else: \<^verbatim>\<open>Report.PDF\<close> keeps its extension, and \<^verbatim>\<open>plan.pdf.v2.pdf\<close> loses
  the inner \<^verbatim>\<open>.pdf\<close> and keeps the extension. The entries of the archive are as claimed.
\<close>

theorem archive_name_keeps_extension:
  "downloadAll (app_state (startConversion (loaded ''Report.PDF'' (letterDoc 2))))
     = SaveZip [(''images/'', Folder),
                (''images/page-1.png'', Base64 (Some ''iVBORw0KGgo='')),
                (''images/page-2.png'', Base64 (Some ''iVBORw0KGgo=''))]
         ''Report.PDF-images.zip''
   \<and> downloadAll (app_state (startConversion (loaded ''plan.pdf.v2.pdf'' (letterDoc 2))))
     = SaveZip [(''images/'', Folder),
                (''images/page-1.png'', Base64 (Some ''iVBORw0KGgo='')),
                (''images/page-2.png'', Base64 (Some ''iVBORw0KGgo=''))]
         ''plan.v2.pdf-images.zip''"
  unfolding two_letter_pages strip_examples by simp

text \<open>
  Claim C7, amended. In every run the progress values, from the 0 set at the start
  through those displayed after each page to the one left at the end, never decrease; a
  run that ends with the status \<open>Done\<close> on a document that has a page leaves the
  progress at 100.
\<close>

theorem progress_nondecreasing:
  assumes "pdfDoc s = Some doc"
  shows "sorted (0 # map progress (shown (startConversion s))
                  @ [progress (app_state (startConversion s))])
       \<and> (status (app_state (startConversion s)) = Done \<and> 1 \<le> numPages doc
            \<longrightarrow> progress (app_state (startConversion s)) = 100)"
proof -
  let ?n = "numPages doc"
  obtain k where k: "1 \<le> k" "k \<le> ?n + 1"
    and ok: "\<forall>j. 1 \<le> j \<and> j < k \<longrightarrow> \<not> isl (convertPage doc (settings s) j)"
    and stop: "k \<le> ?n \<longrightarrow> isl (convertPage doc (settings s) k)"
    by (rule first_failure)
  note C = startConversion_closed[OF assms k ok stop]
  have sh: "map progress (shown (startConversion s)) = map (\<lambda>j. progressPercent j ?n) [1..<k]"
    by (simp add: C(2) comp_def)
  have fin: "progress (app_state (startConversion s))
      = (if 1 < k then progressPercent (k - 1) ?n else 0)"
    using C(3) C(4) k(2) by (cases "k \<le> ?n") simp_all
  have A: "sorted (0 # map progress (shown (startConversion s))
                  @ [progress (app_state (startConversion s))])"
  proof (cases "1 < k")
    case False
    with k(1) have "k = 1" by simp
    then show ?thesis by (simp add: sh fin)
  next
    case True
    then have n1: "1 \<le> ?n" using k(2) by simp
    have nn: "\<forall>j \<in> set [1..<k]. 0 \<le> progressPercent j ?n"
      using n1 by (auto intro: progressPercent_nonneg)
    have up: "\<forall>j \<in> set [1..<k]. progressPercent j ?n \<le> progressPercent (k - 1) ?n"
    proof
      fix j assume "j \<in> set [1..<k]"
      then have "1 \<le> j" "j \<le> k - 1" by auto
      then show "progressPercent j ?n \<le> progressPercent (k - 1) ?n"
        using n1 by (rule progressPercent_mono)
    qed
    have "0 \<le> progressPercent (k - 1) ?n"
      using True n1 by (intro progressPercent_nonneg) simp_all
    then show ?thesis
      using True nn up sorted_progress[OF k(2)]
      by (simp add: sh fin sorted_append)
  qed
  have B: "progress (app_state (startConversion s)) = 100"
    if "status (app_state (startConversion s)) = Done" "1 \<le> ?n"
  proof -
    have "\<not> k \<le> ?n" using that(1) C(3) by auto
    then have "k = ?n + 1" using k(2) by simp
    then show ?thesis using that(2) by (simp add: fin progressPercent_last)
  qed
  from A B show ?thesis by blast
qed

theorem progress_nondecreasing_witness:
  "pdfDoc (loaded ''letter.pdf'' (letterDoc 3)) = Some (letterDoc 3)
   \<and> sorted (0 # map progress (shown (startConversion (loaded ''letter.pdf'' (letterDoc 3))))
                  @ [progress (app_state (startConversion (loaded ''letter.pdf'' (letterDoc 3))))])
   \<and> status (app_state (startConversion (loaded ''letter.pdf'' (letterDoc 3)))) = Done
   \<and> 1 \<le> numPages (letterDoc 3)
   \<and> progress (app_state (startConversion (loaded ''letter.pdf'' (letterDoc 3)))) = 100"
proof -
  let ?s = "loaded ''letter.pdf'' (letterDoc 3)"
  have h: "pdfDoc ?s = Some (letterDoc 3)" by (simp add: loaded_simps)
  have n: "1 \<le> numPages (letterDoc 3)" "numPages (letterDoc 3) = 3" by (simp_all add: letterDoc_def)
  have k: "(1::nat) \<le> 4" "4 \<le> numPages (letterDoc 3) + 1" by (simp_all add: n)
  have ok: "\<forall>j. 1 \<le> j \<and> j < 4 \<longrightarrow> \<not> isl (convertPage (letterDoc 3) (settings ?s) j)"
    by (simp add: letterDoc_converts)
  have stop: "4 \<le> numPages (letterDoc 3) \<longrightarrow> isl (convertPage (letterDoc 3) (settings ?s) 4)"
    by (simp add: n)
  have d: "status (app_state (startConversion ?s)) = Done"
    by (simp add: startConversion_closed(4)[OF h k ok stop] n)
  note T = progress_nondecreasing[OF h]
  have c1: "sorted (0 # map progress (shown (startConversion ?s)) @ [progress (app_state (startConversion ?s))])"
    using T by blast
  have c2: "progress (app_state (startConversion ?s)) = 100"
    using T d n(1) by blast
  from h c1 d n(1) c2 show ?thesis by blast
qed

text \<open>
  The claim as stated fails: when the last of 201 pages fails, the run ends with the
  status \<open>Error\<close> and the progress 100, set after page 200.
\<close>

theorem progress_hundred_counterexample:
  "status (app_state (startConversion (loaded ''scan.pdf'' (brokenDoc 201 201)))) = Error
   \<and> progress (app_state (startConversion (loaded ''scan.pdf'' (brokenDoc 201 201)))) = 100"
proof -
  let ?s = "loaded ''scan.pdf'' (brokenDoc 201 201)"
  have h1: "pdfDoc ?s = Some (brokenDoc 201 201)" by (simp add: loaded_simps)
  have n: "numPages (brokenDoc 201 201) = 201" by (simp add: brokenDoc_def)
  have k: "(1::nat) \<le> 201" "201 \<le> numPages (brokenDoc 201 201) + 1" by (simp_all add: n)
  have le: "201 \<le> numPages (brokenDoc 201 201)" by (simp add: n)
  have ok: "\<forall>j. 1 \<le> j \<and> j < 201 \<longrightarrow> \<not> isl (convertPage (brokenDoc 201 201) (settings ?s) j)"
    by (simp add: brokenDoc_converts)
  have stop: "201 \<le> numPages (brokenDoc 201 201) \<longrightarrow> isl (convertPage (brokenDoc 201 201) (settings ?s) 201)"
    by (simp add: brokenDoc_fails)
  note C = startConversion_closed(3)[OF h1 k ok stop le]
  show ?thesis by (simp add: C n progressPercent_200_201)
qed

text \<open>
  Claim C8. The planned viewport, and with it the size of the canvas, depends on the
  size of the page, the scale and \<^verbatim>\<open>maxPageWidth\<close> only; what \<^verbatim>\<open>downloadAll\<close> delivers,
  the names of the entries and of the archive included, depends on the results, the
  format and the name of the file only. No other part of the state, no counter and no
  clock enters either.
\<close>

theorem plan_and_bundle_deterministic:
  "(pwidth p = pwidth p' \<and> pheight p = pheight p' \<and> scale st = scale st'
      \<and> maxPageWidth st = maxPageWidth st'
     \<longrightarrow> planViewport st p = planViewport st' p'
       \<and> canvasDim 300 (vp_width (planViewport st p)) = canvasDim 300 (vp_width (planViewport st' p'))
       \<and> canvasDim 150 (vp_height (planViewport st p)) = canvasDim 150 (vp_height (planViewport st' p')))
   \<and> (convertedImages s = convertedImages s' \<and> format (settings s) = format (settings s')
      \<and> fileName s = fileName s'
     \<longrightarrow> downloadAll s = downloadAll s')"
  by (simp add: planViewport_def getViewport_def downloadAll_def Let_def)

theorem plan_and_bundle_deterministic_witness:
  "pwidth (samplePage 612 792) = pwidth brokenPage
   \<and> pheight (samplePage 612 792) = pheight brokenPage
   \<and> scale initialSettings = scale (initialSettings\<lparr>format := ''jpeg'', quality := 1 / 2\<rparr>)
   \<and> maxPageWidth initialSettings = maxPageWidth (initialSettings\<lparr>format := ''jpeg'', quality := 1 / 2\<rparr>)
   \<and> planViewport initialSettings (samplePage 612 792)
       = planViewport (initialSettings\<lparr>format := ''jpeg'', quality := 1 / 2\<rparr>) brokenPage
   \<and> downloadAll (app_state (startConversion (loaded ''letter.pdf'' (letterDoc 2))))
       = downloadAll ((app_state (startConversion (loaded ''letter.pdf'' (letterDoc 2))))
           \<lparr>status := Idle, progress := 7, errorMsg := ''x''\<rparr>)"
proof -
  let ?st' = "initialSettings\<lparr>format := ''jpeg'', quality := 1 / 2\<rparr>"
  let ?s = "app_state (startConversion (loaded ''letter.pdf'' (letterDoc 2)))"
  let ?s' = "?s\<lparr>status := Idle, progress := 7, errorMsg := ''x''\<rparr>"
  note T = plan_and_bundle_deterministic[of "samplePage 612 792" brokenPage initialSettings ?st' ?s ?s']
  have h: "pwidth (samplePage 612 792) = pwidth brokenPage"
    "pheight (samplePage 612 792) = pheight brokenPage"
    "scale initialSettings = scale ?st'"
    "maxPageWidth initialSettings = maxPageWidth ?st'"
    by (simp_all add: samplePage_def brokenPage_def)
  have g: "convertedImages ?s = convertedImages ?s'" "format (settings ?s) = format (settings ?s')"
    "fileName ?s = fileName ?s'"
    by simp_all
  from T h have 1: "planViewport initialSettings (samplePage 612 792) = planViewport ?st' brokenPage"
    by blast
  from T g have 2: "downloadAll ?s = downloadAll ?s'" by blast
  from h 1 2 show ?thesis by blast
qed

text \<open>
  Claim C9. While no document is loaded, \<^verbatim>\<open>startConversion\<close> returns at once: the state
  of the component is left as it was, and nothing is converted or displayed.
\<close>

theorem startConversion_without_document:
  assumes "pdfDoc s = None"
  shows "app_state (startConversion s) = s
       \<and> images (startConversion s) = [] \<and> shown (startConversion s) = []"
  using assms by (simp add: startConversion_def)

theorem startConversion_without_document_witness:
  "pdfDoc initialApp = None
   \<and> app_state (startConversion initialApp) = initialApp
   \<and> images (startConversion initialApp) = [] \<and> shown (startConversion initialApp) = []"
proof -
  have h: "pdfDoc initialApp = None" by (simp add: initialApp_def)
  from startConversion_without_document[OF h] h show ?thesis by blast
qed

text \<open>
  Claim C10. While there is no result, \<^verbatim>\<open>downloadAll\<close> returns at once: neither a single
  file nor an archive is handed to \<^verbatim>\<open>saveAs\<close>.
\<close>

theorem downloadAll_without_results:
  assumes "convertedImages s = []"
  shows "downloadAll s = Nothing"
  using assms by (simp add: downloadAll_def)

theorem downloadAll_without_results_witness:
  "convertedImages initialApp = [] \<and> downloadAll initialApp = Nothing"
proof -
  have h: "convertedImages initialApp = []" by (simp add: initialApp_def)
  from downloadAll_without_results[OF h] h show ?thesis by blast
qed

end
